theory Spec2Isabelle
  imports Main
begin

section \<open>The remote service as the program sees it\<close>

text \<open>
  The program (\<^verbatim>\<open>main.go\<close>) talks to the remote service through a client library.
  Only the fields the program reads are modelled. A Go string is a sequence of bytes,
  here a \<^typ>\<open>string\<close>; a Go \<^verbatim>\<open>error\<close> is its message, and \<^verbatim>\<open>nil\<close> is \<open>None\<close>;
  a Go pointer that may be \<^verbatim>\<open>nil\<close> is an \<open>option\<close>. A call of the client returns
  \<open>Inl msg\<close> when its \<^verbatim>\<open>err\<close> is not nil and \<open>Inr\<close> of its results otherwise. The
  entries of a returned list are the decoded objects themselves. The later versions of
  the program wrap the same calls in tracing spans, call the resolver
  \<^verbatim>\<open>getProjectID\<close>, and change nothing else in the four functions modelled here.
\<close>

type_synonym Time = int
type_synonym Duration = int

record gitlab_Project =
  Project_ID :: int

record gitlab_Commit =
  ShortID :: string

record gitlab_Deployable =
  FinishedAt :: "Time option"
  Commit :: "gitlab_Commit option"

text \<open>
  The type of a deployment is declared in the client library. Its deployable is taken
  as optional: where the service sends none, the program has no finish time to read,
  be it behind a nil pointer or in an empty record whose finish time is nil.
\<close>

record gitlab_Deployment =
  Deployable :: "gitlab_Deployable option"

record gitlab_Environment =
  Environment_ID :: int
  Environment_Name :: string
  LastDeployment :: "gitlab_Deployment option"

record gitlab_Response =
  NextPage :: int

record ListProjectsOptions =
  SearchNamespaces :: bool
  Projects_Search :: string
  Visibility :: string

record ListEnvironmentsOptions =
  Page :: int
  PerPage :: int
  States :: string
  Search :: string

record gitlab_Client =
  ListProjects :: "ListProjectsOptions \<Rightarrow> string + gitlab_Project list"
  ListEnvironments ::
    "int \<Rightarrow> ListEnvironmentsOptions \<Rightarrow> string + gitlab_Environment list \<times> gitlab_Response"
  GetEnvironment :: "int \<Rightarrow> int \<Rightarrow> string + gitlab_Environment"

record EnvDep =
  Name :: string
  Prod :: int

section \<open>Project resolver\<close>

text \<open>
  \<^verbatim>\<open>getProjectPid\<close> returns the pair \<^verbatim>\<open>(int, error)\<close>. The search string is the
  value of the \<^verbatim>\<open>-project\<close> flag.
\<close>

definition PrivateVisibility :: string where
  "PrivateVisibility = ''private''"

definition getProjectPid :: "gitlab_Client \<Rightarrow> string \<Rightarrow> int \<times> string option" where
  "getProjectPid c projectFlag =
     (case ListProjects c
             \<lparr>SearchNamespaces = True, Projects_Search = projectFlag,
              Visibility = PrivateVisibility\<rparr> of
        Inl err \<Rightarrow> (0, Some (''listing projects: '' @ err))
      | Inr ps \<Rightarrow>
          if length ps > 1 then (0, Some ''too many projects matched'')
          else if length ps < 1 then (0, Some ''no projects matched'')
          else (Project_ID (ps ! 0), None))"

section \<open>Environment lister\<close>

text \<open>
  \<^verbatim>\<open>strings.Split(s, "/")\<close> of the Go standard library, for a separator of one byte:
  the pieces of \<open>s\<close> between the occurrences of the separator, one more than there are
  occurrences. \<open>cur\<close> holds the bytes of the piece being read.
\<close>

fun splitFrom :: "char \<Rightarrow> string \<Rightarrow> string \<Rightarrow> string list" where
  "splitFrom sep cur [] = [cur]"
| "splitFrom sep cur (c # cs) =
     (if c = sep then cur # splitFrom sep [] cs else splitFrom sep (cur @ [c]) cs)"

definition strings_Split :: "string \<Rightarrow> char \<Rightarrow> string list" where
  "strings_Split s sep = splitFrom sep [] s"

text \<open>The second loop of \<^verbatim>\<open>getEnvs\<close>: one entry for each name of exactly two parts.\<close>

fun servDeps :: "gitlab_Environment list \<Rightarrow> EnvDep list" where
  "servDeps [] = []"
| "servDeps (env # allEnvs) =
     (let parts = strings_Split (Environment_Name env) (CHR ''/'') in
      if length parts \<noteq> 2 then servDeps allEnvs
      else \<lparr>Name = parts ! 1, Prod = Environment_ID env\<rparr> # servDeps allEnvs)"

text \<open>
  The first loop of \<^verbatim>\<open>getEnvs\<close>. It runs as long as the service names a next page,
  so it need not end: \<open>None\<close> is a run that never returns. \<open>reqs\<close> records the page
  numbers requested so far. The result is the Go pair \<^verbatim>\<open>(allEnvs, error)\<close>, where
  the list is \<open>None\<close> for \<^verbatim>\<open>nil\<close>.
\<close>

definition listOptions :: "int \<Rightarrow> ListEnvironmentsOptions" where
  "listOptions page = \<lparr>Page = page, PerPage = 20, States = ''available'', Search = ''prod/''\<rparr>"

partial_function (option) fetchPages ::
  "gitlab_Client \<Rightarrow> int \<Rightarrow> int \<Rightarrow> gitlab_Environment list \<Rightarrow> int list \<Rightarrow>
     (int list \<times> gitlab_Environment list option \<times> string option) option" where
  "fetchPages c pid page allEnvs reqs =
     (if page \<noteq> 0 then
        (case ListEnvironments c pid (listOptions page) of
           Inl err \<Rightarrow> Some (reqs @ [page], None, Some (''list environments: '' @ err))
         | Inr (envs, r) \<Rightarrow> fetchPages c pid (NextPage r) (allEnvs @ envs) (reqs @ [page]))
      else Some (reqs, Some allEnvs, None))"

definition getEnvs ::
  "gitlab_Client \<Rightarrow> int \<Rightarrow> (int list \<times> EnvDep list option \<times> string option) option" where
  "getEnvs c pid =
     (case fetchPages c pid 1 [] [] of
        None \<Rightarrow> None
      | Some (reqs, None, err) \<Rightarrow> Some (reqs, None, err)
      | Some (reqs, Some allEnvs, err) \<Rightarrow> Some (reqs, Some (servDeps allEnvs), None))"

section \<open>Drift of one environment\<close>

text \<open>
  \<^verbatim>\<open>fmt.Printf\<close> pads a string to a width counted in runes, not bytes
  (\<^verbatim>\<open>utf8.RuneCountInString\<close> of the Go standard library). \<open>runeLen c cs\<close> is the
  number of bytes the decoder consumes at a string that starts with the byte \<open>c\<close> and
  goes on with \<open>cs\<close>: the length of a well-formed encoding, and 1 at a byte that
  starts none.
\<close>

definition byte :: "char \<Rightarrow> nat" where
  "byte c = of_char c"

definition runeLen :: "char \<Rightarrow> string \<Rightarrow> nat" where
  "runeLen c cs =
     (let b = byte c in
      if b < 0x80 then 1
      else if b < 0xC2 \<or> 0xF5 \<le> b then 1
      else
        let size = (if b < 0xE0 then 2 else if b < 0xF0 then 3 else 4);
            lo = (if b = 0xE0 then 0xA0 else if b = 0xF0 then 0x90 else 0x80);
            hi = (if b = 0xED then 0x9F else if b = 0xF4 then 0x8F else 0xBF)
        in
          if length cs < size - 1 then 1
          else if byte (cs ! 0) < lo \<or> hi < byte (cs ! 0) then 1
          else if size = 2 then 2
          else if byte (cs ! 1) < 0x80 \<or> 0xBF < byte (cs ! 1) then 1
          else if size = 3 then 3
          else if byte (cs ! 2) < 0x80 \<or> 0xBF < byte (cs ! 2) then 1
          else 4)"

fun RuneCountInString :: "string \<Rightarrow> nat" where
  "RuneCountInString [] = 0"
| "RuneCountInString (c # cs) = Suc (RuneCountInString (drop (runeLen c cs - 1) cs))"

text \<open>The verb \<^verbatim>\<open>%-18s\<close>: the string, then spaces up to the width.\<close>

definition padRight :: "nat \<Rightarrow> string \<Rightarrow> string" where
  "padRight wid s = s @ replicate (wid - RuneCountInString s) (CHR '' '')"

text \<open>
  The clock and the duration formatter are outside the program: \<open>time_Since t\<close> is
  \<^verbatim>\<open>time.Since(t)\<close> at the moment of the call, and \<open>durafmt_String d n\<close> is
  \<^verbatim>\<open>durafmt.Parse(d).LimitFirstN(n).String()\<close>.
\<close>

record Runtime =
  time_Since :: "Time \<Rightarrow> Duration"
  durafmt_String :: "Duration \<Rightarrow> nat \<Rightarrow> string"

text \<open>
  A call either returns or panics on a nil pointer. \<^verbatim>\<open>getDrift\<close> returns what it
  wrote to the standard output and its \<^verbatim>\<open>error\<close>.
\<close>

datatype 'a outcome = Panic | Return 'a

definition row :: "string \<Rightarrow> string \<Rightarrow> string \<Rightarrow> string" where
  "row name shortID dd = padRight 18 name @ ''| '' @ shortID @ ''  | '' @ dd @ [CHR 0x0A]"

definition getDrift ::
  "Runtime \<Rightarrow> gitlab_Client \<Rightarrow> int \<Rightarrow> EnvDep \<Rightarrow> (string list \<times> string option) outcome" where
  "getDrift rt c pid ed =
     (case GetEnvironment c pid (Prod ed) of
        Inl err \<Rightarrow> Return ([], Some (''get prod environment: '' @ err))
      | Inr penv \<Rightarrow>
          (case LastDeployment penv of
             None \<Rightarrow> Return ([], None)
           | Some dep \<Rightarrow>
               (case Deployable dep of
                  None \<Rightarrow> Panic
                | Some pdep \<Rightarrow>
                    (case FinishedAt pdep of
                       None \<Rightarrow> Panic
                     | Some finishedAt \<Rightarrow>
                         let lastDep = time_Since rt finishedAt;
                             dd = durafmt_String rt lastDep 2
                         in (case Commit pdep of
                               None \<Rightarrow> Panic
                             | Some commit \<Rightarrow>
                                 Return ([row (Name ed) (ShortID commit) dd], None))))))"

section \<open>Drift reporter\<close>

text \<open>
  \<^verbatim>\<open>getDrifts\<close> starts one goroutine for each entry and waits on a
  \<^verbatim>\<open>sync.WaitGroup\<close>. The goroutines run interleaved, one step of one goroutine at a
  time. The main goroutine prints the header, then for entry \<open>i\<close> adds 1 to the
  counter (\<open>Loop i\<close>) and starts the goroutine (\<open>Go i\<close>), then waits until the counter
  is 0 and returns. A started goroutine calls \<^verbatim>\<open>getDrift\<close> (\<open>Running\<close>), logs the
  error if there is one (\<open>Logging\<close>), and runs its deferred \<^verbatim>\<open>wg.Done()\<close>
  (\<open>Deferred\<close>). When \<^verbatim>\<open>getDrift\<close> panics, the deferred call still runs
  (\<open>Panicking\<close>) and the goroutine then brings the process down (\<open>Crashing\<close>).
  A log line is modelled without the time stamp the logger puts before it.
\<close>

datatype mainpc = PrintHeader | Loop nat | Go nat | Wait | Returned "string option"

datatype taskpc = Running | Logging string | Deferred | Done | Panicking | Crashing

record sys =
  pc :: mainpc
  wg :: int
  tasks :: "(EnvDep \<times> taskpc) list"
  stdout :: "string list"
  stderr :: "string list"
  crashed :: bool

datatype actor = MainGoroutine | Goroutine nat

definition header :: string where
  "header = ''SERVICE           | SHORT SHA | LAST DEPLOY'' @ [CHR 0x0A]"

definition logLine :: "EnvDep \<Rightarrow> string \<Rightarrow> string" where
  "logLine ed err = ''get drift '' @ Name ed @ '': '' @ err"

definition init :: sys where
  "init = \<lparr>pc = PrintHeader, wg = 0, tasks = [], stdout = [], stderr = [], crashed = False\<rparr>"

definition mainStep :: "EnvDep list \<Rightarrow> sys \<Rightarrow> sys option" where
  "mainStep envDeps s =
     (case pc s of
        PrintHeader \<Rightarrow> Some (s\<lparr>stdout := stdout s @ [header], pc := Loop 0\<rparr>)
      | Loop i \<Rightarrow>
          if i < length envDeps then Some (s\<lparr>wg := wg s + 1, pc := Go i\<rparr>)
          else Some (s\<lparr>pc := Wait\<rparr>)
      | Go i \<Rightarrow>
          if i < length envDeps
          then Some (s\<lparr>tasks := tasks s @ [(envDeps ! i, Running)], pc := Loop (i + 1)\<rparr>)
          else None
      | Wait \<Rightarrow> if wg s = 0 then Some (s\<lparr>pc := Returned None\<rparr>) else None
      | Returned err \<Rightarrow> None)"

text \<open>\<^verbatim>\<open>wg.Done()\<close> panics when the counter would become negative.\<close>

definition wgDone :: "sys \<Rightarrow> nat \<Rightarrow> EnvDep \<Rightarrow> taskpc \<Rightarrow> sys" where
  "wgDone s k ed after =
     (if wg s - 1 < 0 then s\<lparr>crashed := True\<rparr>
      else s\<lparr>wg := wg s - 1, tasks := (tasks s)[k := (ed, after)]\<rparr>)"

definition taskStep :: "Runtime \<Rightarrow> gitlab_Client \<Rightarrow> int \<Rightarrow> sys \<Rightarrow> nat \<Rightarrow> sys option" where
  "taskStep rt c pid s k =
     (if k < length (tasks s) then
        (case tasks s ! k of
           (ed, Running) \<Rightarrow>
             (case getDrift rt c pid ed of
                Panic \<Rightarrow> Some (s\<lparr>tasks := (tasks s)[k := (ed, Panicking)]\<rparr>)
              | Return (rows, None) \<Rightarrow>
                  Some (s\<lparr>stdout := stdout s @ rows, tasks := (tasks s)[k := (ed, Deferred)]\<rparr>)
              | Return (rows, Some err) \<Rightarrow>
                  Some (s\<lparr>stdout := stdout s @ rows, tasks := (tasks s)[k := (ed, Logging err)]\<rparr>))
         | (ed, Logging err) \<Rightarrow>
             Some (s\<lparr>stderr := stderr s @ [logLine ed err], tasks := (tasks s)[k := (ed, Deferred)]\<rparr>)
         | (ed, Deferred) \<Rightarrow> Some (wgDone s k ed Done)
         | (ed, Done) \<Rightarrow> None
         | (ed, Panicking) \<Rightarrow> Some (wgDone s k ed Crashing)
         | (ed, Crashing) \<Rightarrow> Some (s\<lparr>crashed := True\<rparr>))
      else None)"

definition step ::
  "Runtime \<Rightarrow> gitlab_Client \<Rightarrow> int \<Rightarrow> EnvDep list \<Rightarrow> sys \<Rightarrow> actor \<Rightarrow> sys option" where
  "step rt c pid envDeps s a =
     (if crashed s then None
      else case a of MainGoroutine \<Rightarrow> mainStep envDeps s | Goroutine k \<Rightarrow> taskStep rt c pid s k)"

fun exec ::
  "Runtime \<Rightarrow> gitlab_Client \<Rightarrow> int \<Rightarrow> EnvDep list \<Rightarrow> sys \<Rightarrow> actor list \<Rightarrow> sys option" where
  "exec rt c pid envDeps s [] = Some s"
| "exec rt c pid envDeps s (a # sched) =
     (case step rt c pid envDeps s a of
        None \<Rightarrow> None
      | Some s' \<Rightarrow> exec rt c pid envDeps s' sched)"

text \<open>
  \<^verbatim>\<open>getDrifts\<close> under a schedule: the state after the goroutines have moved in the
  order the schedule names them, \<open>None\<close> when the schedule names a goroutine that
  cannot move.
\<close>

definition getDrifts ::
  "Runtime \<Rightarrow> gitlab_Client \<Rightarrow> int \<Rightarrow> EnvDep list \<Rightarrow> actor list \<Rightarrow> sys option" where
  "getDrifts rt c pid envDeps sched = exec rt c pid envDeps init sched"

text \<open>The end of \<^verbatim>\<open>main\<close>: what it does with the error of \<^verbatim>\<open>getDrifts\<close>.\<close>

datatype exit = Exit0 | Fatal string

definition mainAfterDrifts :: "string option \<Rightarrow> exit" where
  "mainAfterDrifts err =
     (case err of Some e \<Rightarrow> Fatal (''get drifts: '' @ e) | None \<Rightarrow> Exit0)"

section \<open>Notions used to state and prove the properties\<close>

subsection \<open>What the service answers\<close>

text \<open>
  \<open>servesPages c pid page pages\<close>: asked for \<open>page\<close> and then for each page the
  previous answer names, the service answers with the pages of \<open>pages\<close> (number and
  content), and the last answer names no further page. \<open>failsAfter\<close> is the same for
  a sequence of answers that ends with the error \<open>e\<close> at page \<open>q\<close>.
\<close>

fun servesPages ::
  "gitlab_Client \<Rightarrow> int \<Rightarrow> int \<Rightarrow> (int \<times> gitlab_Environment list) list \<Rightarrow> bool" where
  "servesPages c pid page [] = (page = 0)"
| "servesPages c pid page ((p, envs) # rest) =
     (page \<noteq> 0 \<and> p = page \<and>
      (case ListEnvironments c pid (listOptions page) of
         Inl err \<Rightarrow> False
       | Inr (envs', r) \<Rightarrow> envs' = envs \<and> servesPages c pid (NextPage r) rest))"

fun failsAfter ::
  "gitlab_Client \<Rightarrow> int \<Rightarrow> int \<Rightarrow> (int \<times> gitlab_Environment list) list \<Rightarrow> int \<Rightarrow> string \<Rightarrow> bool"
  where
  "failsAfter c pid page [] q e =
     (page \<noteq> 0 \<and> q = page \<and> ListEnvironments c pid (listOptions page) = Inl e)"
| "failsAfter c pid page ((p, envs) # rest) q e =
     (page \<noteq> 0 \<and> p = page \<and>
      (case ListEnvironments c pid (listOptions page) of
         Inl err \<Rightarrow> False
       | Inr (envs', r) \<Rightarrow> envs' = envs \<and> failsAfter c pid (NextPage r) rest q e))"

subsection \<open>The states of the drift reporter\<close>

text \<open>
  \<open>started n p\<close> is the number of goroutines the main goroutine has started when it
  is at \<open>p\<close>, of \<open>n\<close> entries. A goroutine has \<open>finished\<close> when its deferred
  \<^verbatim>\<open>wg.Done()\<close> has run: it is done, or it panicked and is about to end the process.
\<close>

fun started :: "nat \<Rightarrow> mainpc \<Rightarrow> nat" where
  "started n PrintHeader = 0"
| "started n (Loop i) = i"
| "started n (Go i) = i"
| "started n Wait = n"
| "started n (Returned err) = n"

fun finished :: "taskpc \<Rightarrow> bool" where
  "finished Done = True"
| "finished Crashing = True"
| "finished t = False"

fun unfinished :: "(EnvDep \<times> taskpc) list \<Rightarrow> nat" where
  "unfinished [] = 0"
| "unfinished ((ed, t) # ts) = (if finished t then 0 else 1) + unfinished ts"

fun added :: "mainpc \<Rightarrow> int" where
  "added (Go i) = 1"
| "added p = 0"

fun inRange :: "nat \<Rightarrow> mainpc \<Rightarrow> bool" where
  "inRange n (Loop i) = (i \<le> n)"
| "inRange n (Go i) = (i < n)"
| "inRange n (Returned err) = (err = None)"
| "inRange n p = True"

fun joined :: "mainpc \<Rightarrow> nat \<Rightarrow> bool" where
  "joined (Returned err) u = (u = 0)"
| "joined p u = True"

text \<open>
  What a goroutine has done when it is at a given point, in terms of the lines \<open>out\<close>
  on the standard output and \<open>err\<close> in the log.
\<close>

fun taskOk ::
  "Runtime \<Rightarrow> gitlab_Client \<Rightarrow> int \<Rightarrow> string set \<Rightarrow> string set \<Rightarrow> EnvDep \<times> taskpc \<Rightarrow> bool"
  where
  "taskOk rt c pid out err (ed, Running) = True"
| "taskOk rt c pid out err (ed, Logging e) =
     (case getDrift rt c pid ed of
        Return (rows, Some e') \<Rightarrow> e' = e \<and> set rows \<subseteq> out
      | _ \<Rightarrow> False)"
| "taskOk rt c pid out err (ed, Deferred) =
     (case getDrift rt c pid ed of
        Return (rows, None) \<Rightarrow> set rows \<subseteq> out
      | Return (rows, Some e) \<Rightarrow> set rows \<subseteq> out \<and> logLine ed e \<in> err
      | Panic \<Rightarrow> False)"
| "taskOk rt c pid out err (ed, Done) =
     (case getDrift rt c pid ed of
        Return (rows, None) \<Rightarrow> set rows \<subseteq> out
      | Return (rows, Some e) \<Rightarrow> set rows \<subseteq> out \<and> logLine ed e \<in> err
      | Panic \<Rightarrow> False)"
| "taskOk rt c pid out err (ed, Panicking) = (getDrift rt c pid ed = Panic)"
| "taskOk rt c pid out err (ed, Crashing) = (getDrift rt c pid ed = Panic)"

text \<open>
  The invariant of the reporter: the goroutines started are those of the first entries,
  in order; the counter of the wait group is the number of unfinished goroutines, plus
  one between \<^verbatim>\<open>wg.Add(1)\<close> and the \<^verbatim>\<open>go\<close> statement; after the return no goroutine
  is unfinished.
\<close>

definition invar :: "Runtime \<Rightarrow> gitlab_Client \<Rightarrow> int \<Rightarrow> EnvDep list \<Rightarrow> sys \<Rightarrow> bool" where
  "invar rt c pid envDeps s \<longleftrightarrow>
     map fst (tasks s) = take (started (length envDeps) (pc s)) envDeps
   \<and> inRange (length envDeps) (pc s)
   \<and> wg s = added (pc s) + int (unfinished (tasks s))
   \<and> joined (pc s) (unfinished (tasks s))
   \<and> list_all (taskOk rt c pid (set (stdout s)) (set (stderr s))) (tasks s)"

text \<open>A bound on the steps that are left, which every step lowers.\<close>

fun mainSteps :: "nat \<Rightarrow> mainpc \<Rightarrow> nat" where
  "mainSteps n PrintHeader = 5 * n + 3"
| "mainSteps n (Loop i) = 5 * (n - i) + 2"
| "mainSteps n (Go i) = 5 * (n - i) + 1"
| "mainSteps n Wait = 1"
| "mainSteps n (Returned err) = 0"

fun taskSteps :: "taskpc \<Rightarrow> nat" where
  "taskSteps Running = 3"
| "taskSteps (Logging e) = 2"
| "taskSteps Deferred = 1"
| "taskSteps Done = 0"
| "taskSteps Panicking = 2"
| "taskSteps Crashing = 0"

fun remaining :: "(EnvDep \<times> taskpc) list \<Rightarrow> nat" where
  "remaining [] = 0"
| "remaining ((ed, t) # ts) = taskSteps t + remaining ts"

definition stepsLeft :: "nat \<Rightarrow> sys \<Rightarrow> nat" where
  "stepsLeft n s = mainSteps n (pc s) + remaining (tasks s) + (if crashed s then 0 else 1)"

subsection \<open>Concrete inputs\<close>

text \<open>
  A client that answers every project search with \<open>ps\<close>, the request for a page of
  environments by the page number, and the request for an environment by its
  identifier.
\<close>

definition stubClient ::
  "gitlab_Project list \<Rightarrow> (int \<Rightarrow> string + gitlab_Environment list \<times> gitlab_Response) \<Rightarrow>
     (int \<Rightarrow> string + gitlab_Environment) \<Rightarrow> gitlab_Client" where
  "stubClient ps pages envs =
     \<lparr>ListProjects = (\<lambda>opt. Inr ps),
      ListEnvironments = (\<lambda>pid opt. pages (Page opt)),
      GetEnvironment = (\<lambda>pid eid. envs eid)\<rparr>"

definition noPages :: "int \<Rightarrow> string + gitlab_Environment list \<times> gitlab_Response" where
  "noPages page = Inl ''404 Not Found''"

definition noEnvironment :: "int \<Rightarrow> string + gitlab_Environment" where
  "noEnvironment eid = Inl ''404 Not Found''"

definition env :: "int \<Rightarrow> string \<Rightarrow> gitlab_Environment" where
  "env i n = \<lparr>Environment_ID = i, Environment_Name = n, LastDeployment = None\<rparr>"

definition twoPages :: "int \<Rightarrow> string + gitlab_Environment list \<times> gitlab_Response" where
  "twoPages page =
     (if page = 1 then Inr ([env 3 ''prod/api'', env 4 ''prod''], \<lparr>NextPage = 2\<rparr>)
      else if page = 2 then Inr ([env 5 ''prod/worker''], \<lparr>NextPage = 0\<rparr>)
      else Inl ''404 Not Found'')"

definition brokenSecondPage :: "int \<Rightarrow> string + gitlab_Environment list \<times> gitlab_Response" where
  "brokenSecondPage page =
     (if page = 1 then Inr ([env 3 ''prod/api''], \<lparr>NextPage = 2\<rparr>)
      else Inl ''connection reset'')"

definition deployed :: "gitlab_Deployable option \<Rightarrow> gitlab_Environment" where
  "deployed d =
     \<lparr>Environment_ID = 3, Environment_Name = ''prod/api'',
      LastDeployment = Some \<lparr>Deployable = d\<rparr>\<rparr>"

definition apiDeployable :: gitlab_Deployable where
  "apiDeployable = \<lparr>FinishedAt = Some 1636000000, Commit = Some \<lparr>ShortID = ''abc1234''\<rparr>\<rparr>"

text \<open>
  A clock at which the deployment of \<open>apiDeployable\<close> finished 3 days and 2 hours ago
  (in nanoseconds), and the phrase of the formatter for that duration.
\<close>

definition exampleRuntime :: Runtime where
  "exampleRuntime =
     \<lparr>time_Since = (\<lambda>t. if t = 1636000000 then 266400000000000 else 0),
      durafmt_String =
        (\<lambda>d n. if d = 266400000000000 \<and> n = 2 then ''3 days 2 hours'' else [])\<rparr>"

definition api :: EnvDep where
  "api = \<lparr>Name = ''api'', Prod = 3\<rparr>"

definition worker :: EnvDep where
  "worker = \<lparr>Name = ''worker'', Prod = 5\<rparr>"

text \<open>The environment of \<open>api\<close> has a deployment; the request for that of \<open>worker\<close> fails.\<close>

definition driftClient :: gitlab_Client where
  "driftClient =
     stubClient [] noPages
       (\<lambda>eid. if eid = 3 then Inr (deployed (Some apiDeployable)) else Inl ''timeout'')"

definition interleaved :: "actor list" where
  "interleaved =
     [MainGoroutine, MainGoroutine, MainGoroutine, Goroutine 0, MainGoroutine, MainGoroutine,
      Goroutine 1, MainGoroutine, Goroutine 0, Goroutine 1, Goroutine 1, MainGoroutine]"

definition mainFirst :: "actor list" where
  "mainFirst =
     [MainGoroutine, MainGoroutine, MainGoroutine, MainGoroutine, MainGoroutine, MainGoroutine,
      Goroutine 1, Goroutine 1, Goroutine 1, Goroutine 0, Goroutine 0, MainGoroutine]"

definition oneByOne :: "actor list" where
  "oneByOne =
     [MainGoroutine, MainGoroutine, MainGoroutine, Goroutine 0, Goroutine 0, MainGoroutine,
      MainGoroutine, Goroutine 1, Goroutine 1, Goroutine 1, MainGoroutine, MainGoroutine]"

definition reported :: sys where
  "reported =
     \<lparr>pc = Returned None, wg = 0, tasks = [(api, Done), (worker, Done)],
      stdout = [''SERVICE           | SHORT SHA | LAST DEPLOY'' @ [CHR 0x0A],
                ''api               | abc1234  | 3 days 2 hours'' @ [CHR 0x0A]],
      stderr = [''get drift worker: get prod environment: timeout''],
      crashed = False\<rparr>"

text \<open>
  A third service, \<open>web\<close>, and a client for which the last deployment of \<open>api\<close> has
  no deployable, the request for \<open>worker\<close> fails and \<open>web\<close> has a complete deployment.
  In \<open>crashRun\<close> the main goroutine starts the three goroutines and waits, the goroutine
  of \<open>worker\<close> calls \<^verbatim>\<open>getDrift\<close>, and then the goroutine of \<open>api\<close> runs.
\<close>

definition web :: EnvDep where
  "web = \<lparr>Name = ''web'', Prod = 7\<rparr>"

definition crashClient :: gitlab_Client where
  "crashClient =
     stubClient [] noPages
       (\<lambda>eid. if eid = 3 then Inr (deployed None)
              else if eid = 5 then Inl ''timeout''
              else Inr (deployed (Some apiDeployable)))"

definition crashRun :: "actor list" where
  "crashRun =
     [MainGoroutine, MainGoroutine, MainGoroutine, MainGoroutine, MainGoroutine, MainGoroutine,
      MainGoroutine, MainGoroutine, Goroutine 1, Goroutine 0, Goroutine 0, Goroutine 0]"

definition crashedState :: sys where
  "crashedState =
     \<lparr>pc = Wait, wg = 2,
      tasks = [(api, Crashing), (worker, Logging ''get prod environment: timeout''),
               (web, Running)],
      stdout = [''SERVICE           | SHORT SHA | LAST DEPLOY'' @ [CHR 0x0A]], stderr = [],
      crashed = True\<rparr>"

section \<open>Properties of the project resolver\<close>

text \<open>
  Claim C1. Whatever list of projects the search returns: when it is empty,
  \<^verbatim>\<open>getProjectPid\<close> fails with the error "no projects matched"; when it has two or
  more entries, it fails with "too many projects matched"; when it has exactly one
  entry, it returns the identifier of that project and no error.
\<close>

theorem getProjectPid_by_count:
  assumes "ListProjects c \<lparr>SearchNamespaces = True, Projects_Search = projectFlag,
              Visibility = PrivateVisibility\<rparr> = Inr ps"
  shows "(length ps = 0 \<longrightarrow> getProjectPid c projectFlag = (0, Some ''no projects matched''))
       \<and> (2 \<le> length ps \<longrightarrow>
            getProjectPid c projectFlag = (0, Some ''too many projects matched''))
       \<and> (\<forall>p. ps = [p] \<longrightarrow> getProjectPid c projectFlag = (Project_ID p, None))"
  using assms by (auto simp: getProjectPid_def)

theorem getProjectPid_by_count_witness:
  "getProjectPid (stubClient [] noPages noEnvironment) ''shop'' =
     (0, Some ''no projects matched'')
 \<and> getProjectPid (stubClient [\<lparr>Project_ID = 11\<rparr>, \<lparr>Project_ID = 12\<rparr>] noPages noEnvironment)
      ''shop'' = (0, Some ''too many projects matched'')
 \<and> getProjectPid (stubClient [\<lparr>Project_ID = 11\<rparr>] noPages noEnvironment) ''shop'' = (11, None)"
  using
    getProjectPid_by_count [of "stubClient [] noPages noEnvironment" "''shop''" "[]"]
    getProjectPid_by_count
      [of "stubClient [\<lparr>Project_ID = 11\<rparr>, \<lparr>Project_ID = 12\<rparr>] noPages noEnvironment" "''shop''"
        "[\<lparr>Project_ID = 11\<rparr>, \<lparr>Project_ID = 12\<rparr>]"]
    getProjectPid_by_count
      [of "stubClient [\<lparr>Project_ID = 11\<rparr>] noPages noEnvironment" "''shop''"
        "[\<lparr>Project_ID = 11\<rparr>]"]
  by (simp add: stubClient_def)

section \<open>Properties of the environment lister\<close>

subsection \<open>Splitting a name\<close>

lemma splitFrom_no_sep: "sep \<notin> set s \<Longrightarrow> splitFrom sep cur s = [cur @ s]"
  by (induction s arbitrary: cur) auto

lemma splitFrom_at_sep:
  "sep \<notin> set a \<Longrightarrow> splitFrom sep cur (a @ sep # b) = (cur @ a) # splitFrom sep [] b"
  by (induction a arbitrary: cur) auto

lemma length_splitFrom: "length (splitFrom sep cur s) = Suc (count_list s sep)"
  by (induction s arbitrary: cur) auto

lemma strings_Split_two:
  assumes "sep \<notin> set a" and "sep \<notin> set b"
  shows "strings_Split (a @ sep # b) sep = [a, b]"
  using assms by (simp add: strings_Split_def splitFrom_at_sep splitFrom_no_sep)

lemma count_list_one:
  "count_list s x = 1 \<Longrightarrow> \<exists>a b. s = a @ x # b \<and> x \<notin> set a \<and> x \<notin> set b"
proof (induction s)
  case Nil
  then show ?case by simp
next
  case (Cons c s)
  show ?case
  proof (cases "c = x")
    case True
    with Cons.prems have "count_list s x = 0" by simp
    then have "x \<notin> set s" by (simp add: count_list_0_iff)
    with True show ?thesis by (intro exI [of _ "[]"] exI [of _ s]) simp
  next
    case False
    with Cons.prems have "count_list s x = 1" by simp
    from Cons.IH [OF this] obtain a b where "s = a @ x # b" "x \<notin> set a" "x \<notin> set b"
      by blast
    with False show ?thesis by (intro exI [of _ "c # a"] exI [of _ b]) simp
  qed
qed

lemma length_strings_Split_two_iff:
  "length (strings_Split s sep) = 2 \<longleftrightarrow>
     (\<exists>a b. s = a @ sep # b \<and> sep \<notin> set a \<and> sep \<notin> set b)"
proof
  assume "length (strings_Split s sep) = 2"
  then have "count_list s sep = 1" by (simp add: strings_Split_def length_splitFrom)
  then show "\<exists>a b. s = a @ sep # b \<and> sep \<notin> set a \<and> sep \<notin> set b" by (rule count_list_one)
next
  assume "\<exists>a b. s = a @ sep # b \<and> sep \<notin> set a \<and> sep \<notin> set b"
  then show "length (strings_Split s sep) = 2" by (auto simp: strings_Split_two)
qed

text \<open>
  Claim C2, as the program has it. The name of every environment is split at \<open>/\<close>.
  A name of exactly two parts, \<open>a/b\<close> with no \<open>/\<close> in \<open>a\<close> or in \<open>b\<close>, gives one entry,
  whose display name is the second part \<open>b\<close> and whose identifier is that of the
  environment; either part may be empty. Any other name gives no entry, and no error:
  when the pages have been fetched, \<^verbatim>\<open>getEnvs\<close> returns the entries with a nil error.
\<close>

theorem servDeps_two_parts:
  "(\<forall>a b. Environment_Name e = a @ ''/'' @ b \<and> CHR ''/'' \<notin> set a \<and> CHR ''/'' \<notin> set b \<longrightarrow>
      servDeps (e # rest) = \<lparr>Name = b, Prod = Environment_ID e\<rparr> # servDeps rest)
 \<and> ((\<nexists>a b. Environment_Name e = a @ ''/'' @ b \<and> CHR ''/'' \<notin> set a \<and> CHR ''/'' \<notin> set b) \<longrightarrow>
      servDeps (e # rest) = servDeps rest)
 \<and> (\<forall>reqs allEnvs err. fetchPages c pid 1 [] [] = Some (reqs, Some allEnvs, err) \<longrightarrow>
      getEnvs c pid = Some (reqs, Some (servDeps allEnvs), None))"
proof (intro conjI allI impI)
  fix a b
  assume "Environment_Name e = a @ ''/'' @ b \<and> CHR ''/'' \<notin> set a \<and> CHR ''/'' \<notin> set b"
  then have "strings_Split (Environment_Name e) (CHR ''/'') = [a, b]"
    using strings_Split_two [of "CHR ''/''" a b] by simp
  then show "servDeps (e # rest) = \<lparr>Name = b, Prod = Environment_ID e\<rparr> # servDeps rest"
    by simp
next
  assume "\<nexists>a b. Environment_Name e = a @ ''/'' @ b \<and> CHR ''/'' \<notin> set a \<and> CHR ''/'' \<notin> set b"
  then have "length (strings_Split (Environment_Name e) (CHR ''/'')) \<noteq> 2"
    by (simp add: length_strings_Split_two_iff)
  then show "servDeps (e # rest) = servDeps rest" by simp
next
  fix reqs allEnvs err
  assume "fetchPages c pid 1 [] [] = Some (reqs, Some allEnvs, err)"
  then show "getEnvs c pid = Some (reqs, Some (servDeps allEnvs), None)"
    by (simp add: getEnvs_def)
qed

theorem servDeps_two_parts_witness:
  "servDeps (env 3 ''prod/api'' # [env 4 ''prod'']) =
     \<lparr>Name = ''api'', Prod = 3\<rparr> # servDeps [env 4 ''prod'']
 \<and> servDeps (env 6 ''a/b/c'' # [env 3 ''prod/api'']) = servDeps [env 3 ''prod/api'']
 \<and> getEnvs (stubClient [] twoPages noEnvironment) 11 =
     Some ([1, 2], Some [\<lparr>Name = ''api'', Prod = 3\<rparr>, \<lparr>Name = ''worker'', Prod = 5\<rparr>], None)"
proof -
  have two: "Environment_Name (env 3 ''prod/api'') = ''prod'' @ ''/'' @ ''api''
      \<and> CHR ''/'' \<notin> set ''prod'' \<and> CHR ''/'' \<notin> set ''api''"
    by (simp add: env_def)
  have three: "\<nexists>a b. Environment_Name (env 6 ''a/b/c'') = a @ ''/'' @ b
      \<and> CHR ''/'' \<notin> set a \<and> CHR ''/'' \<notin> set b"
    using length_strings_Split_two_iff [of "''a/b/c''" "CHR ''/''"]
    by (simp add: env_def strings_Split_def)
  have pages: "fetchPages (stubClient [] twoPages noEnvironment) 11 1 [] [] =
      Some ([1, 2], Some [env 3 ''prod/api'', env 4 ''prod'', env 5 ''prod/worker''], None)"
    by (simp add: fetchPages.simps stubClient_def twoPages_def listOptions_def)
  from two three pages
    servDeps_two_parts [of "env 3 ''prod/api''" "[env 4 ''prod'']"
      "stubClient [] twoPages noEnvironment" 11]
    servDeps_two_parts [of "env 6 ''a/b/c''" "[env 3 ''prod/api'']"
      "stubClient [] twoPages noEnvironment" 11]
  show ?thesis by (simp add: env_def strings_Split_def)
qed

text \<open>
  Claim C2 as stated fails: the name \<open>prod/\<close> does not split into two non-empty parts
  (its second part is empty), and it is kept, with an empty display name.
\<close>

theorem servDeps_empty_second_part:
  "strings_Split ''prod/'' (CHR ''/'') = [''prod'', '''']
 \<and> servDeps [env 7 ''prod/''] = [\<lparr>Name = '''', Prod = 7\<rparr>]"
  by (simp add: strings_Split_def env_def)

subsection \<open>Fetching the pages\<close>

lemma fetchPages_serves:
  "servesPages c pid page pages \<Longrightarrow>
   fetchPages c pid page allEnvs reqs =
     Some (reqs @ map fst pages, Some (allEnvs @ concat (map snd pages)), None)"
proof (induction pages arbitrary: page allEnvs reqs)
  case Nil
  then show ?case by (subst fetchPages.simps) simp
next
  case (Cons pe pages)
  obtain p envs where pe: "pe = (p, envs)" by (cases pe)
  from Cons.prems pe obtain r where
    ne: "page \<noteq> 0" and p: "p = page" and
    answer: "ListEnvironments c pid (listOptions page) = Inr (envs, r)" and
    rest: "servesPages c pid (NextPage r) pages"
    by (auto split: sum.splits)
  have "fetchPages c pid page allEnvs reqs =
        fetchPages c pid (NextPage r) (allEnvs @ envs) (reqs @ [page])"
    using ne answer by (subst fetchPages.simps) simp
  also have "\<dots> = Some ((reqs @ [page]) @ map fst pages,
                         Some ((allEnvs @ envs) @ concat (map snd pages)), None)"
    by (rule Cons.IH [OF rest])
  finally show ?case using pe p by simp
qed

lemma fetchPages_fails:
  "failsAfter c pid page earlier q e \<Longrightarrow>
   fetchPages c pid page allEnvs reqs =
     Some (reqs @ map fst earlier @ [q], None, Some (''list environments: '' @ e))"
proof (induction earlier arbitrary: page allEnvs reqs)
  case Nil
  then show ?case by (subst fetchPages.simps) simp
next
  case (Cons pe earlier)
  obtain p envs where pe: "pe = (p, envs)" by (cases pe)
  from Cons.prems pe obtain r where
    ne: "page \<noteq> 0" and p: "p = page" and
    answer: "ListEnvironments c pid (listOptions page) = Inr (envs, r)" and
    rest: "failsAfter c pid (NextPage r) earlier q e"
    by (auto split: sum.splits)
  have "fetchPages c pid page allEnvs reqs =
        fetchPages c pid (NextPage r) (allEnvs @ envs) (reqs @ [page])"
    using ne answer by (subst fetchPages.simps) simp
  also have "\<dots> = Some ((reqs @ [page]) @ map fst earlier @ [q], None,
                         Some (''list environments: '' @ e))"
    by (rule Cons.IH [OF rest])
  finally show ?case using pe p by simp
qed

text \<open>
  Claim C4. When the service answers page 1 and each page that the previous answer
  names, and the last answer names no further page, then \<^verbatim>\<open>getEnvs\<close> returns, the
  pages it has requested are exactly these, in this order and starting with page 1,
  and the environments it has collected are the contents of these pages one after the
  other, each once; its result is built from this list.
\<close>

theorem getEnvs_all_pages:
  assumes "servesPages c pid 1 pages"
  shows "fetchPages c pid 1 [] [] = Some (map fst pages, Some (concat (map snd pages)), None)
       \<and> getEnvs c pid = Some (map fst pages, Some (servDeps (concat (map snd pages))), None)
       \<and> hd (map fst pages) = 1"
proof -
  from assms have "hd (map fst pages) = 1" by (cases pages) auto
  with fetchPages_serves [OF assms, of "[]" "[]"] show ?thesis by (simp add: getEnvs_def)
qed

theorem getEnvs_all_pages_witness:
  "servesPages (stubClient [] twoPages noEnvironment) 11 1
     [(1, [env 3 ''prod/api'', env 4 ''prod'']), (2, [env 5 ''prod/worker''])]
 \<and> fetchPages (stubClient [] twoPages noEnvironment) 11 1 [] [] =
     Some ([1, 2], Some [env 3 ''prod/api'', env 4 ''prod'', env 5 ''prod/worker''], None)
 \<and> getEnvs (stubClient [] twoPages noEnvironment) 11 =
     Some ([1, 2], Some [\<lparr>Name = ''api'', Prod = 3\<rparr>, \<lparr>Name = ''worker'', Prod = 5\<rparr>], None)"
proof -
  have serves: "servesPages (stubClient [] twoPages noEnvironment) 11 1
     [(1, [env 3 ''prod/api'', env 4 ''prod'']), (2, [env 5 ''prod/worker''])]"
    by (simp add: stubClient_def twoPages_def listOptions_def)
  from serves getEnvs_all_pages [OF serves] show ?thesis
    by (simp add: env_def strings_Split_def)
qed

text \<open>
  Claim C5. When the request for a page fails, after any number of pages fetched with
  success, \<^verbatim>\<open>getEnvs\<close> returns a nil list together with the error of the request,
  wrapped as "list environments: ...". It never returns a list together with an error.
\<close>

theorem getEnvs_page_error:
  "(failsAfter c pid 1 earlier q e \<longrightarrow>
      getEnvs c pid = Some (map fst earlier @ [q], None, Some (''list environments: '' @ e)))
 \<and> (\<forall>reqs deps msg. getEnvs c pid = Some (reqs, deps, Some msg) \<longrightarrow> deps = None)"
proof (intro conjI allI impI)
  assume "failsAfter c pid 1 earlier q e"
  from fetchPages_fails [OF this, of "[]" "[]"]
  show "getEnvs c pid = Some (map fst earlier @ [q], None, Some (''list environments: '' @ e))"
    by (simp add: getEnvs_def)
next
  fix reqs deps msg
  assume "getEnvs c pid = Some (reqs, deps, Some msg)"
  then show "deps = None" by (auto simp: getEnvs_def split: option.splits)
qed

theorem getEnvs_page_error_witness:
  "failsAfter (stubClient [] brokenSecondPage noEnvironment) 11 1 [(1, [env 3 ''prod/api''])] 2
     ''connection reset''
 \<and> getEnvs (stubClient [] brokenSecondPage noEnvironment) 11 =
     Some ([1, 2], None, Some ''list environments: connection reset'')"
proof -
  have fails: "failsAfter (stubClient [] brokenSecondPage noEnvironment) 11 1
     [(1, [env 3 ''prod/api''])] 2 ''connection reset''"
    by (simp add: stubClient_def brokenSecondPage_def listOptions_def)
  from fails
    getEnvs_page_error [of "stubClient [] brokenSecondPage noEnvironment" 11
      "[(1, [env 3 ''prod/api''])]" 2 "''connection reset''"]
  show ?thesis by simp
qed

section \<open>Properties of the drift of one environment\<close>

lemma RuneCountInString_ascii:
  "\<forall>ch \<in> set s. byte ch < 0x80 \<Longrightarrow> RuneCountInString s = length s"
  by (induction s) (auto simp: runeLen_def)

text \<open>
  Claim C3, as the program has it. For an environment whose last deployment has its
  deployable, its finish time and its commit, \<^verbatim>\<open>getDrift\<close> prints one row and returns
  no error. The row is the display name, followed by spaces up to a width of 18 runes
  (18 bytes for a name of ASCII characters), then \<open>| \<close>, the short commit SHA, two
  spaces, \<open>| \<close>, the phrase that the duration formatter, limited to its first 2
  components, gives for the time since the finish, and a newline. For the service
  \<open>api\<close>, the SHA \<open>abc1234\<close> and the phrase \<open>3 days 2 hours\<close> this is the row of the
  example that follows the theorem.
\<close>

theorem getDrift_row:
  assumes "GetEnvironment c pid (Prod ed) = Inr penv"
    and "LastDeployment penv = Some dep"
    and "Deployable dep = Some pdep"
    and "FinishedAt pdep = Some finishedAt"
    and "Commit pdep = Some commit"
  shows "getDrift rt c pid ed =
           Return ([Name ed @ replicate (18 - RuneCountInString (Name ed)) (CHR '' '') @ ''| '' @
                    ShortID commit @ ''  | '' @ durafmt_String rt (time_Since rt finishedAt) 2 @
                    [CHR 0x0A]], None)
       \<and> ((\<forall>ch \<in> set (Name ed). byte ch < 0x80) \<longrightarrow>
            RuneCountInString (Name ed) = length (Name ed))"
  using assms by (simp add: getDrift_def row_def padRight_def RuneCountInString_ascii)

theorem getDrift_row_witness:
  "getDrift exampleRuntime (stubClient [] noPages (\<lambda>eid. Inr (deployed (Some apiDeployable)))) 11
      \<lparr>Name = ''api'', Prod = 3\<rparr> =
   Return ([''api               | abc1234  | 3 days 2 hours'' @ [CHR 0x0A]], None)
 \<and> RuneCountInString ''api'' = 3"
  using getDrift_row
    [of "stubClient [] noPages (\<lambda>eid. Inr (deployed (Some apiDeployable)))" 11
      "\<lparr>Name = ''api'', Prod = 3\<rparr>" "deployed (Some apiDeployable)"
      "\<lparr>Deployable = Some apiDeployable\<rparr>" apiDeployable 1636000000
      "\<lparr>ShortID = ''abc1234''\<rparr>" exampleRuntime]
  by (simp add: stubClient_def deployed_def apiDeployable_def exampleRuntime_def byte_def
      runeLen_def eval_nat_numeral)

text \<open>
  Claim C3 as stated fails: with one space between the SHA and the bar, as in the
  format the claim gives, the row is not the one the program prints.
\<close>

theorem getDrift_row_one_space:
  "getDrift exampleRuntime (stubClient [] noPages (\<lambda>eid. Inr (deployed (Some apiDeployable)))) 11
      \<lparr>Name = ''api'', Prod = 3\<rparr> \<noteq>
   Return ([''api               | abc1234 | 3 days 2 hours'' @ [CHR 0x0A]], None)"
  by (simp add: getDrift_def row_def padRight_def runeLen_def byte_def
      stubClient_def deployed_def apiDeployable_def exampleRuntime_def eval_nat_numeral)

text \<open>
  Claim C6. For an environment with no last deployment, \<^verbatim>\<open>getDrift\<close> prints nothing
  and returns no error, and the goroutine that called it goes on to its deferred
  \<^verbatim>\<open>wg.Done()\<close> with the standard output and the log as they were.
\<close>

theorem getDrift_no_deployment:
  assumes "GetEnvironment c pid (Prod ed) = Inr penv" and "LastDeployment penv = None"
  shows "getDrift rt c pid ed = Return ([], None)
       \<and> (\<forall>s k. k < length (tasks s) \<and> tasks s ! k = (ed, Running) \<longrightarrow>
            taskStep rt c pid s k = Some (s\<lparr>tasks := (tasks s)[k := (ed, Deferred)]\<rparr>))"
  using assms by (simp add: getDrift_def taskStep_def)

theorem getDrift_no_deployment_witness:
  "getDrift exampleRuntime (stubClient [] noPages (\<lambda>eid. Inr (env 3 ''prod/api''))) 11 api =
     Return ([], None)
 \<and> taskStep exampleRuntime (stubClient [] noPages (\<lambda>eid. Inr (env 3 ''prod/api''))) 11
      \<lparr>pc = Wait, wg = 1, tasks = [(api, Running)], stdout = [header], stderr = [],
       crashed = False\<rparr> 0 =
     Some \<lparr>pc = Wait, wg = 1, tasks = [(api, Deferred)], stdout = [header], stderr = [],
       crashed = False\<rparr>"
  using getDrift_no_deployment
    [of "stubClient [] noPages (\<lambda>eid. Inr (env 3 ''prod/api''))" 11 api "env 3 ''prod/api''"
      exampleRuntime]
  by (simp add: stubClient_def env_def api_def)

text \<open>
  Claim C9. When the environment has a last deployment, \<^verbatim>\<open>getDrift\<close> checks nothing
  else before it prints: it completes without a panic exactly when the deployable of
  the deployment, the finish time of the deployable and its commit are all present,
  and it panics when one of them is absent.
\<close>

theorem getDrift_panics:
  assumes "GetEnvironment c pid (Prod ed) = Inr penv" and "LastDeployment penv = Some dep"
  shows "getDrift rt c pid ed \<noteq> Panic \<longleftrightarrow>
           (\<exists>pdep finishedAt commit. Deployable dep = Some pdep \<and>
              FinishedAt pdep = Some finishedAt \<and> Commit pdep = Some commit)"
  using assms by (auto simp: getDrift_def Let_def split: option.splits)

theorem getDrift_panics_witness:
  "getDrift exampleRuntime (stubClient [] noPages (\<lambda>eid. Inr (deployed None))) 11 api = Panic
 \<and> getDrift exampleRuntime
      (stubClient [] noPages
        (\<lambda>eid. Inr (deployed (Some \<lparr>FinishedAt = None, Commit = Some \<lparr>ShortID = ''abc1234''\<rparr>\<rparr>))))
      11 api = Panic
 \<and> getDrift exampleRuntime
      (stubClient [] noPages
        (\<lambda>eid. Inr (deployed (Some \<lparr>FinishedAt = Some 1636000000, Commit = None\<rparr>))))
      11 api = Panic
 \<and> getDrift exampleRuntime (stubClient [] noPages (\<lambda>eid. Inr (deployed (Some apiDeployable))))
      11 api \<noteq> Panic"
  using
    getDrift_panics
      [of "stubClient [] noPages (\<lambda>eid. Inr (deployed None))" 11 api "deployed None"
        "\<lparr>Deployable = None\<rparr>" exampleRuntime]
    getDrift_panics
      [of "stubClient [] noPages
            (\<lambda>eid. Inr (deployed (Some \<lparr>FinishedAt = None,
               Commit = Some \<lparr>ShortID = ''abc1234''\<rparr>\<rparr>)))"
        11 api
        "deployed (Some \<lparr>FinishedAt = None, Commit = Some \<lparr>ShortID = ''abc1234''\<rparr>\<rparr>)"
        "\<lparr>Deployable = Some \<lparr>FinishedAt = None, Commit = Some \<lparr>ShortID = ''abc1234''\<rparr>\<rparr>\<rparr>"
        exampleRuntime]
    getDrift_panics
      [of "stubClient [] noPages
            (\<lambda>eid. Inr (deployed (Some \<lparr>FinishedAt = Some 1636000000, Commit = None\<rparr>)))"
        11 api
        "deployed (Some \<lparr>FinishedAt = Some 1636000000, Commit = None\<rparr>)"
        "\<lparr>Deployable = Some \<lparr>FinishedAt = Some 1636000000, Commit = None\<rparr>\<rparr>"
        exampleRuntime]
    getDrift_panics
      [of "stubClient [] noPages (\<lambda>eid. Inr (deployed (Some apiDeployable)))" 11 api
        "deployed (Some apiDeployable)" "\<lparr>Deployable = Some apiDeployable\<rparr>" exampleRuntime]
  by (simp add: stubClient_def deployed_def apiDeployable_def)

section \<open>Properties of the drift reporter\<close>

subsection \<open>The invariant holds in every state of every run\<close>

lemma unfinished_append: "unfinished (ts @ us) = unfinished ts + unfinished us"
  by (induction ts) auto

lemma unfinished_update:
  "k < length ts \<Longrightarrow> ts ! k = (ed, t) \<Longrightarrow>
   unfinished (ts[k := (ed', t')]) + (if finished t then 0 else 1) =
   unfinished ts + (if finished t' then 0 else 1)"
proof (induction ts arbitrary: k)
  case Nil
  then show ?case by simp
next
  case (Cons a ts)
  obtain ed0 t0 where a: "a = (ed0, t0)" by (cases a)
  show ?case
  proof (cases k)
    case 0
    with Cons.prems a show ?thesis by simp
  next
    case (Suc j)
    with Cons.prems have "j < length ts" "ts ! j = (ed, t)" by simp_all
    from Cons.IH [OF this] Suc a show ?thesis by simp
  qed
qed

lemma unfinished_pos:
  "k < length ts \<Longrightarrow> ts ! k = (ed, t) \<Longrightarrow> \<not> finished t \<Longrightarrow> 0 < unfinished ts"
proof (induction ts arbitrary: k)
  case Nil
  then show ?case by simp
next
  case (Cons a ts)
  obtain ed0 t0 where a: "a = (ed0, t0)" by (cases a)
  show ?case
  proof (cases k)
    case 0
    with Cons.prems a show ?thesis by simp
  next
    case (Suc j)
    with Cons.prems have "0 < unfinished ts" by (intro Cons.IH [of j]) simp_all
    with a show ?thesis by simp
  qed
qed

lemma unfinished_zero:
  "unfinished ts = 0 \<Longrightarrow> (ed, t) \<in> set ts \<Longrightarrow> finished t"
  by (induction ts) (auto split: if_splits)

lemma unfinished_some:
  "0 < unfinished ts \<Longrightarrow> \<exists>k ed t. k < length ts \<and> ts ! k = (ed, t) \<and> \<not> finished t"
proof (induction ts)
  case Nil
  then show ?case by simp
next
  case (Cons a ts)
  obtain ed0 t0 where a: "a = (ed0, t0)" by (cases a)
  show ?case
  proof (cases "finished t0")
    case True
    with Cons.prems a have "0 < unfinished ts" by simp
    from Cons.IH [OF this] obtain k ed t where "k < length ts" "ts ! k = (ed, t)" "\<not> finished t"
      by blast
    then have "Suc k < length (a # ts) \<and> (a # ts) ! Suc k = (ed, t) \<and> \<not> finished t" by simp
    then show ?thesis by blast
  next
    case False
    with a have "0 < length (a # ts) \<and> (a # ts) ! 0 = (ed0, t0) \<and> \<not> finished t0" by simp
    then show ?thesis by blast
  qed
qed

lemma taskOk_mono:
  "taskOk rt c pid out err t \<Longrightarrow> out \<subseteq> out' \<Longrightarrow> err \<subseteq> err' \<Longrightarrow> taskOk rt c pid out' err' t"
proof -
  obtain ed p where t: "t = (ed, p)" by (cases t)
  assume "taskOk rt c pid out err t" "out \<subseteq> out'" "err \<subseteq> err'"
  then show ?thesis unfolding t
    by (cases p) (auto split: outcome.splits option.splits prod.splits)
qed

lemma list_all_taskOk_mono:
  "list_all (taskOk rt c pid out err) ts \<Longrightarrow> out \<subseteq> out' \<Longrightarrow> err \<subseteq> err' \<Longrightarrow>
   list_all (taskOk rt c pid out' err') ts"
  by (induction ts) (auto intro: taskOk_mono)

lemma list_all_update:
  "list_all P ts \<Longrightarrow> P x \<Longrightarrow> list_all P (ts[k := x])"
  by (induction ts arbitrary: k) (auto split: nat.splits)

lemma map_fst_update:
  "k < length ts \<Longrightarrow> ts ! k = (ed, t) \<Longrightarrow> map fst (ts[k := (ed, t')]) = map fst ts"
  by (induction ts arbitrary: k) (auto split: nat.splits)

lemma invar_init: "invar rt c pid envDeps init"
  by (simp add: invar_def init_def)

lemma invar_mainStep:
  assumes "invar rt c pid envDeps s" and "mainStep envDeps s = Some s'"
  shows "invar rt c pid envDeps s'"
proof (cases "pc s")
  case PrintHeader
  with assms show ?thesis
    by (auto simp: invar_def mainStep_def elim: list_all_taskOk_mono)
next
  case (Loop i)
  with assms show ?thesis
    by (auto simp: invar_def mainStep_def split: if_splits)
next
  case (Go i)
  with assms show ?thesis
    by (auto simp: invar_def mainStep_def unfinished_append take_Suc_conv_app_nth split: if_splits)
next
  case Wait
  with assms show ?thesis
    by (auto simp: invar_def mainStep_def split: if_splits)
next
  case (Returned err)
  with assms show ?thesis by (simp add: mainStep_def)
qed


lemma invar_wgDone:
  assumes inv: "invar rt c pid envDeps s"
    and k: "k < length (tasks s)" and at: "tasks s ! k = (ed, t)"
    and t: "\<not> finished t" and t': "finished t'"
    and ok: "taskOk rt c pid (set (stdout s)) (set (stderr s)) (ed, t')"
  shows "invar rt c pid envDeps (wgDone s k ed t')"
proof -
  from unfinished_update [OF k at, of ed t'] t t'
  have u: "unfinished ((tasks s)[k := (ed, t')]) + 1 = unfinished (tasks s)" by simp
  from inv have taken: "inRange (length envDeps) (pc s)" and
    names: "map fst (tasks s) = take (started (length envDeps) (pc s)) envDeps" and
    count: "wg s = added (pc s) + int (unfinished (tasks s))" and
    join: "joined (pc s) (unfinished (tasks s))" and
    oks: "list_all (taskOk rt c pid (set (stdout s)) (set (stderr s))) (tasks s)"
    by (simp_all add: invar_def)
  show ?thesis
  proof (cases "wg s - 1 < 0")
    case True
    with inv show ?thesis by (simp add: wgDone_def invar_def)
  next
    case False
    have "wg s - 1 = added (pc s) + int (unfinished ((tasks s)[k := (ed, t')]))"
      using u count by linarith
    moreover from u join have "joined (pc s) (unfinished ((tasks s)[k := (ed, t')]))"
      by (cases "pc s") auto
    ultimately show ?thesis using False taken names oks ok k at
      by (simp add: wgDone_def invar_def map_fst_update list_all_update)
  qed
qed

lemma invar_taskStep:
  assumes inv: "invar rt c pid envDeps s" and st: "taskStep rt c pid s k = Some s'"
  shows "invar rt c pid envDeps s'"
proof -
  from st have k: "k < length (tasks s)" by (simp add: taskStep_def split: if_splits)
  obtain ed t where at: "tasks s ! k = (ed, t)" by (cases "tasks s ! k")
  from inv have taken: "inRange (length envDeps) (pc s)" and
    names: "map fst (tasks s) = take (started (length envDeps) (pc s)) envDeps" and
    count: "wg s = added (pc s) + int (unfinished (tasks s))" and
    join: "joined (pc s) (unfinished (tasks s))" and
    oks: "list_all (taskOk rt c pid (set (stdout s)) (set (stderr s))) (tasks s)"
    by (simp_all add: invar_def)
  from oks k at have ok: "taskOk rt c pid (set (stdout s)) (set (stderr s)) (ed, t)"
    by (metis list_all_length)
  show ?thesis
  proof (cases t)
    case Running
    show ?thesis
    proof (cases "getDrift rt c pid ed")
      case Panic
      with st k at Running have s': "s' = s\<lparr>tasks := (tasks s)[k := (ed, Panicking)]\<rparr>"
        by (simp add: taskStep_def)
      from unfinished_update [OF k at, of ed Panicking] Running
      have "unfinished ((tasks s)[k := (ed, Panicking)]) = unfinished (tasks s)" by simp
      with taken names count join oks k at Panic show ?thesis
        by (simp add: s' invar_def map_fst_update list_all_update)
    next
      case (Return res)
      obtain rows err where res: "res = (rows, err)" by (cases res)
      define t' where "t' = (case err of None \<Rightarrow> Deferred | Some e \<Rightarrow> Logging e)"
      from st k at Running Return res
      have s': "s' = s\<lparr>stdout := stdout s @ rows, tasks := (tasks s)[k := (ed, t')]\<rparr>"
        by (simp add: taskStep_def t'_def split: option.splits)
      have nf: "\<not> finished t'" by (simp add: t'_def split: option.splits)
      from unfinished_update [OF k at, of ed t'] Running nf
      have u: "unfinished ((tasks s)[k := (ed, t')]) = unfinished (tasks s)" by simp
      have new: "taskOk rt c pid (set (stdout s @ rows)) (set (stderr s)) (ed, t')"
        using Return res by (simp add: t'_def split: option.splits)
      have "list_all (taskOk rt c pid (set (stdout s @ rows)) (set (stderr s))) (tasks s)"
        using oks by (rule list_all_taskOk_mono) auto
      with new have "list_all (taskOk rt c pid (set (stdout s @ rows)) (set (stderr s)))
                       ((tasks s)[k := (ed, t')])"
        by (simp add: list_all_update)
      with taken names count join u k at show ?thesis
        by (simp add: s' invar_def map_fst_update)
    qed
  next
    case (Logging e)
    with st k at have s': "s' = s\<lparr>stderr := stderr s @ [logLine ed e],
                                   tasks := (tasks s)[k := (ed, Deferred)]\<rparr>"
      by (simp add: taskStep_def)
    from unfinished_update [OF k at, of ed Deferred] Logging
    have u: "unfinished ((tasks s)[k := (ed, Deferred)]) = unfinished (tasks s)" by simp
    have new: "taskOk rt c pid (set (stdout s)) (set (stderr s @ [logLine ed e])) (ed, Deferred)"
      using ok Logging by (auto split: outcome.splits option.splits prod.splits)
    have "list_all (taskOk rt c pid (set (stdout s)) (set (stderr s @ [logLine ed e]))) (tasks s)"
      using oks by (rule list_all_taskOk_mono) auto
    with new have "list_all (taskOk rt c pid (set (stdout s)) (set (stderr s @ [logLine ed e])))
                     ((tasks s)[k := (ed, Deferred)])"
      by (simp add: list_all_update)
    with taken names count join u k at show ?thesis
      by (simp add: s' invar_def map_fst_update)
  next
    case Deferred
    with st k at have s': "s' = wgDone s k ed Done" by (simp add: taskStep_def)
    from ok Deferred have "taskOk rt c pid (set (stdout s)) (set (stderr s)) (ed, Done)" by simp
    with inv k at Deferred show ?thesis unfolding s' by (intro invar_wgDone [where t = t]) simp_all
  next
    case Done
    with st k at show ?thesis by (simp add: taskStep_def)
  next
    case Panicking
    with st k at have s': "s' = wgDone s k ed Crashing" by (simp add: taskStep_def)
    from ok Panicking have "taskOk rt c pid (set (stdout s)) (set (stderr s)) (ed, Crashing)" by simp
    with inv k at Panicking show ?thesis unfolding s' by (intro invar_wgDone [where t = t]) simp_all
  next
    case Crashing
    with st k at have "s' = s\<lparr>crashed := True\<rparr>" by (simp add: taskStep_def)
    with inv show ?thesis by (simp add: invar_def)
  qed
qed

lemma invar_step:
  "invar rt c pid envDeps s \<Longrightarrow> step rt c pid envDeps s a = Some s' \<Longrightarrow> invar rt c pid envDeps s'"
  by (cases a) (auto simp: step_def split: if_splits intro: invar_mainStep invar_taskStep)

lemma invar_exec:
  "invar rt c pid envDeps s \<Longrightarrow> exec rt c pid envDeps s sched = Some s' \<Longrightarrow>
   invar rt c pid envDeps s'"
proof (induction sched arbitrary: s)
  case Nil
  then show ?case by simp
next
  case (Cons a sched)
  from Cons.prems(2) obtain s1 where s1: "step rt c pid envDeps s a = Some s1"
    and rest: "exec rt c pid envDeps s1 sched = Some s'"
    by (auto split: option.splits)
  from Cons.prems(1) s1 have "invar rt c pid envDeps s1" by (rule invar_step)
  then show ?case using rest by (rule Cons.IH)
qed

lemma invar_getDrifts:
  "getDrifts rt c pid envDeps sched = Some s \<Longrightarrow> invar rt c pid envDeps s"
  unfolding getDrifts_def by (rule invar_exec [OF invar_init])


subsection \<open>Every run is finite and none gets stuck\<close>

lemma remaining_append: "remaining (ts @ us) = remaining ts + remaining us"
  by (induction ts) auto

lemma remaining_update:
  "k < length ts \<Longrightarrow> ts ! k = (ed, t) \<Longrightarrow>
   remaining (ts[k := (ed', t')]) + taskSteps t = remaining ts + taskSteps t'"
proof (induction ts arbitrary: k)
  case Nil
  then show ?case by simp
next
  case (Cons a ts)
  obtain ed0 t0 where a: "a = (ed0, t0)" by (cases a)
  show ?case
  proof (cases k)
    case 0
    with Cons.prems a show ?thesis by simp
  next
    case (Suc j)
    with Cons.prems have "j < length ts" "ts ! j = (ed, t)" by simp_all
    from Cons.IH [OF this] Suc a show ?thesis by simp
  qed
qed

lemma mainStep_decreases:
  assumes "mainStep envDeps s = Some s'"
  shows "stepsLeft (length envDeps) s' < stepsLeft (length envDeps) s"
proof (cases "pc s")
  case (Go i)
  with assms have "i < length envDeps" by (simp add: mainStep_def split: if_splits)
  then have "5 * (length envDeps - Suc i) + 5 = 5 * (length envDeps - i)" by simp
  with assms Go show ?thesis
    by (auto simp: mainStep_def stepsLeft_def remaining_append split: if_splits)
qed (insert assms, auto simp: mainStep_def stepsLeft_def split: if_splits)

lemma wgDone_decreases:
  assumes k: "k < length (tasks s)" and at: "tasks s ! k = (ed, t)"
    and less: "taskSteps t' < taskSteps t" and live: "\<not> crashed s"
  shows "stepsLeft n (wgDone s k ed t') < stepsLeft n s"
proof -
  from remaining_update [OF k at, of ed t'] less
  have "remaining ((tasks s)[k := (ed, t')]) < remaining (tasks s)" by linarith
  with live show ?thesis by (simp add: wgDone_def stepsLeft_def)
qed

lemma taskStep_decreases:
  assumes st: "taskStep rt c pid s k = Some s'" and live: "\<not> crashed s"
  shows "stepsLeft n s' < stepsLeft n s"
proof -
  from st have k: "k < length (tasks s)" by (simp add: taskStep_def split: if_splits)
  obtain ed t where at: "tasks s ! k = (ed, t)" by (cases "tasks s ! k")
  have upd: "remaining ((tasks s)[k := (ed, t')]) < remaining (tasks s)"
    if "taskSteps t' < taskSteps t" for t'
    using remaining_update [OF k at, of ed t'] that by linarith
  show ?thesis
  proof (cases t)
    case Running
    show ?thesis
    proof (cases "getDrift rt c pid ed")
      case Panic
      with st k at Running have s': "s' = s\<lparr>tasks := (tasks s)[k := (ed, Panicking)]\<rparr>"
        by (simp add: taskStep_def)
      from upd [of Panicking] Running show ?thesis by (simp add: s' stepsLeft_def)
    next
      case (Return res)
      obtain rows err where res: "res = (rows, err)" by (cases res)
      define t' where "t' = (case err of None \<Rightarrow> Deferred | Some e \<Rightarrow> Logging e)"
      from st k at Running Return res
      have s': "s' = s\<lparr>stdout := stdout s @ rows, tasks := (tasks s)[k := (ed, t')]\<rparr>"
        by (simp add: taskStep_def t'_def split: option.splits)
      have "taskSteps t' < taskSteps t" using Running by (simp add: t'_def split: option.splits)
      from upd [OF this] show ?thesis by (simp add: s' stepsLeft_def)
    qed
  next
    case (Logging e)
    with st k at have s': "s' = s\<lparr>stderr := stderr s @ [logLine ed e],
                                   tasks := (tasks s)[k := (ed, Deferred)]\<rparr>"
      by (simp add: taskStep_def)
    from upd [of Deferred] Logging show ?thesis by (simp add: s' stepsLeft_def)
  next
    case Deferred
    with st k at have s': "s' = wgDone s k ed Done" by (simp add: taskStep_def)
    show ?thesis unfolding s' using k at live Deferred by (intro wgDone_decreases [where t = t]) simp_all
  next
    case Done
    with st k at show ?thesis by (simp add: taskStep_def)
  next
    case Panicking
    with st k at have s': "s' = wgDone s k ed Crashing" by (simp add: taskStep_def)
    show ?thesis unfolding s' using k at live Panicking by (intro wgDone_decreases [where t = t]) simp_all
  next
    case Crashing
    with st k at have "s' = s\<lparr>crashed := True\<rparr>" by (simp add: taskStep_def)
    with live show ?thesis by (simp add: stepsLeft_def)
  qed
qed

lemma step_decreases:
  "step rt c pid envDeps s a = Some s' \<Longrightarrow>
   stepsLeft (length envDeps) s' < stepsLeft (length envDeps) s"
  by (cases a) (auto simp: step_def split: if_splits intro: mainStep_decreases taskStep_decreases)

lemma exec_bounded:
  "exec rt c pid envDeps s sched = Some s' \<Longrightarrow>
   length sched + stepsLeft (length envDeps) s' \<le> stepsLeft (length envDeps) s"
proof (induction sched arbitrary: s)
  case Nil
  then show ?case by simp
next
  case (Cons a sched)
  from Cons.prems obtain s1 where s1: "step rt c pid envDeps s a = Some s1"
    and rest: "exec rt c pid envDeps s1 sched = Some s'"
    by (auto split: option.splits)
  from step_decreases [OF s1] Cons.IH [OF rest] show ?case by simp
qed

lemma exec_append:
  "exec rt c pid envDeps s (xs @ ys) =
     (case exec rt c pid envDeps s xs of
        None \<Rightarrow> None
      | Some s' \<Rightarrow> exec rt c pid envDeps s' ys)"
  by (induction xs arbitrary: s) (auto split: option.splits)

lemma task_can_move:
  assumes k: "k < length (tasks s)" and at: "tasks s ! k = (ed, t)" and t: "t \<noteq> Done"
  shows "\<exists>s'. taskStep rt c pid s k = Some s'"
  using assms
  by (cases t) (auto simp: taskStep_def split: outcome.splits option.splits prod.splits)

lemma progress:
  assumes inv: "invar rt c pid envDeps s" and live: "\<not> crashed s"
    and going: "\<forall>err. pc s \<noteq> Returned err"
  shows "\<exists>a s'. step rt c pid envDeps s a = Some s'"
proof (cases "pc s = Wait \<and> wg s \<noteq> 0")
  case False
  with inv going have "\<exists>s'. mainStep envDeps s = Some s'"
    by (cases "pc s") (auto simp: mainStep_def invar_def)
  with live have "\<exists>s'. step rt c pid envDeps s MainGoroutine = Some s'" by (simp add: step_def)
  then show ?thesis by blast
next
  case True
  with inv have "0 < unfinished (tasks s)" by (simp add: invar_def)
  from unfinished_some [OF this] obtain k ed t where
    k: "k < length (tasks s)" and at: "tasks s ! k = (ed, t)" and t: "\<not> finished t" by blast
  from t have "t \<noteq> Done" by auto
  from task_can_move [OF k at this] obtain s' where "taskStep rt c pid s k = Some s'" by blast
  with live have "step rt c pid envDeps s (Goroutine k) = Some s'" by (simp add: step_def)
  then show ?thesis by blast
qed

lemma task_of_entry:
  assumes inv: "invar rt c pid envDeps s" and k: "k < length (tasks s)"
    and at: "tasks s ! k = (ed, t)"
  shows "ed \<in> set envDeps"
proof -
  from k at have "ed \<in> set (map fst (tasks s))" by (metis fst_conv length_map nth_map nth_mem)
  with inv have "ed \<in> set (take (started (length envDeps) (pc s)) envDeps)"
    by (simp add: invar_def)
  then show ?thesis by (rule in_set_takeD)
qed

lemma step_stays_live:
  assumes inv: "invar rt c pid envDeps s" and live: "\<not> crashed s"
    and safe: "\<forall>ed \<in> set envDeps. getDrift rt c pid ed \<noteq> Panic"
    and st: "step rt c pid envDeps s a = Some s'"
  shows "\<not> crashed s'"
proof (cases a)
  case MainGoroutine
  with st live show ?thesis
    by (cases "pc s") (auto simp: step_def mainStep_def split: if_splits)
next
  case (Goroutine k)
  with st live have ts: "taskStep rt c pid s k = Some s'" by (simp add: step_def)
  then have k: "k < length (tasks s)" by (simp add: taskStep_def split: if_splits)
  obtain ed t where at: "tasks s ! k = (ed, t)" by (cases "tasks s ! k")
  from task_of_entry [OF inv k at] safe have np: "getDrift rt c pid ed \<noteq> Panic" by blast
  from inv k at have ok: "taskOk rt c pid (set (stdout s)) (set (stderr s)) (ed, t)"
    by (metis invar_def list_all_length)
  show ?thesis
  proof (cases t)
    case Running
    with ts k at np live show ?thesis
      by (auto simp: taskStep_def split: outcome.splits option.splits prod.splits)
  next
    case (Logging e)
    with ts k at live show ?thesis by (auto simp: taskStep_def)
  next
    case Deferred
    from unfinished_pos [OF k at] Deferred have "0 < unfinished (tasks s)" by simp
    with inv have "\<not> wg s - 1 < 0" by (cases "pc s") (auto simp: invar_def)
    with ts k at Deferred live show ?thesis by (auto simp: taskStep_def wgDone_def)
  next
    case Done
    with ts k at show ?thesis by (simp add: taskStep_def)
  next
    case Panicking
    with ok np show ?thesis by simp
  next
    case Crashing
    with ok np show ?thesis by simp
  qed
qed

lemma completes:
  assumes safe: "\<forall>ed \<in> set envDeps. getDrift rt c pid ed \<noteq> Panic"
  shows "invar rt c pid envDeps s \<Longrightarrow> \<not> crashed s \<Longrightarrow>
         \<exists>sched s'. exec rt c pid envDeps s sched = Some s' \<and> pc s' = Returned None \<and> \<not> crashed s'"
proof (induction "stepsLeft (length envDeps) s" arbitrary: s rule: less_induct)
  case less
  show ?case
  proof (cases "\<exists>err. pc s = Returned err")
    case True
    with less.prems(1) have "pc s = Returned None" by (auto simp: invar_def)
    with less.prems(2) have "exec rt c pid envDeps s [] = Some s \<and> pc s = Returned None \<and> \<not> crashed s"
      by simp
    then show ?thesis by blast
  next
    case False
    with progress [OF less.prems] obtain a s1 where s1: "step rt c pid envDeps s a = Some s1"
      by blast
    have "invar rt c pid envDeps s1" using less.prems(1) s1 by (rule invar_step)
    moreover have "\<not> crashed s1" using less.prems safe s1 by (rule step_stays_live)
    moreover have "stepsLeft (length envDeps) s1 < stepsLeft (length envDeps) s"
      using s1 by (rule step_decreases)
    ultimately obtain sched s' where
      "exec rt c pid envDeps s1 sched = Some s'" "pc s' = Returned None" "\<not> crashed s'"
      using less.hyps by blast
    with s1 have "exec rt c pid envDeps s (a # sched) = Some s' \<and> pc s' = Returned None \<and> \<not> crashed s'"
      by simp
    then show ?thesis by blast
  qed
qed

lemma exec_stays_live:
  assumes safe: "\<forall>ed \<in> set envDeps. getDrift rt c pid ed \<noteq> Panic"
  shows "invar rt c pid envDeps s \<Longrightarrow> \<not> crashed s \<Longrightarrow>
         exec rt c pid envDeps s sched = Some s' \<Longrightarrow> \<not> crashed s'"
proof (induction sched arbitrary: s)
  case Nil
  then show ?case by simp
next
  case (Cons a sched)
  from Cons.prems(3) obtain s1 where s1: "step rt c pid envDeps s a = Some s1"
    and rest: "exec rt c pid envDeps s1 sched = Some s'"
    by (auto split: option.splits)
  have "invar rt c pid envDeps s1" using Cons.prems(1) s1 by (rule invar_step)
  moreover have "\<not> crashed s1" using Cons.prems(1,2) safe s1 by (rule step_stays_live)
  ultimately show ?case using rest by (rule Cons.IH)
qed

lemma getDrifts_live:
  assumes "\<forall>ed \<in> set envDeps. getDrift rt c pid ed \<noteq> Panic"
    and "getDrifts rt c pid envDeps sched = Some s"
  shows "\<not> crashed s"
  using exec_stays_live [OF assms(1) invar_init _ assms(2) [unfolded getDrifts_def]]
  by (simp add: init_def)

lemma getDrifts_extends:
  assumes safe: "\<forall>ed \<in> set envDeps. getDrift rt c pid ed \<noteq> Panic"
    and run: "getDrifts rt c pid envDeps sched = Some s"
  shows "\<exists>sched' s'. getDrifts rt c pid envDeps (sched @ sched') = Some s' \<and>
           pc s' = Returned None \<and> \<not> crashed s'"
proof -
  from completes [OF safe invar_getDrifts [OF run] getDrifts_live [OF safe run]]
  obtain sched' s' where "exec rt c pid envDeps s sched' = Some s'" "pc s' = Returned None"
    "\<not> crashed s'" by blast
  with run have "getDrifts rt c pid envDeps (sched @ sched') = Some s' \<and>
           pc s' = Returned None \<and> \<not> crashed s'"
    by (simp add: getDrifts_def exec_append)
  then show ?thesis by blast
qed

lemma returned_tasks:
  assumes inv: "invar rt c pid envDeps s" and ret: "pc s = Returned err"
  shows "err = None" and "map fst (tasks s) = envDeps"
    and "\<forall>(ed, t) \<in> set (tasks s). finished t"
proof -
  from inv ret show "err = None" by (simp add: invar_def)
  from inv ret show "map fst (tasks s) = envDeps" by (simp add: invar_def)
  from inv ret have "unfinished (tasks s) = 0" by (simp add: invar_def)
  then show "\<forall>(ed, t) \<in> set (tasks s). finished t" by (auto dest: unfinished_zero)
qed

lemma taskOk_in_set:
  "invar rt c pid envDeps s \<Longrightarrow> (ed, t) \<in> set (tasks s) \<Longrightarrow>
   taskOk rt c pid (set (stdout s)) (set (stderr s)) (ed, t)"
  by (auto simp: invar_def list_all_iff)

lemma goroutine_frame:
  assumes st: "step rt c pid envDeps s (Goroutine k) = Some s'"
  shows "pc s' = pc s" and "length (tasks s') = length (tasks s)"
    and "\<forall>j. j \<noteq> k \<longrightarrow> tasks s' ! j = tasks s ! j"
proof -
  from st have ts: "taskStep rt c pid s k = Some s'" by (simp add: step_def split: if_splits)
  then have k: "k < length (tasks s)" by (simp add: taskStep_def split: if_splits)
  obtain ed t where at: "tasks s ! k = (ed, t)" by (cases "tasks s ! k")
  from ts k at show "pc s' = pc s"
    by (cases t)
      (auto simp: taskStep_def wgDone_def split: outcome.splits option.splits prod.splits)
  from ts k at show "length (tasks s') = length (tasks s)"
    by (cases t)
      (auto simp: taskStep_def wgDone_def split: outcome.splits option.splits prod.splits)
  from ts k at show "\<forall>j. j \<noteq> k \<longrightarrow> tasks s' ! j = tasks s ! j"
    by (cases t)
      (auto simp: taskStep_def wgDone_def split: outcome.splits option.splits prod.splits)
qed

lemma goroutine_crash:
  assumes inv: "invar rt c pid envDeps s"
    and st: "step rt c pid envDeps s (Goroutine k) = Some s'" and cr: "crashed s'"
  shows "\<exists>ed. tasks s ! k = (ed, Crashing) \<and> getDrift rt c pid ed = Panic"
proof -
  from st have live: "\<not> crashed s" and ts: "taskStep rt c pid s k = Some s'"
    by (simp_all add: step_def split: if_splits)
  from ts have k: "k < length (tasks s)" by (simp add: taskStep_def split: if_splits)
  obtain ed t where at: "tasks s ! k = (ed, t)" by (cases "tasks s ! k")
  from k at have mem: "(ed, t) \<in> set (tasks s)" by (metis nth_mem)
  have wgpos: "\<not> wg s - 1 < 0" if "\<not> finished t"
  proof -
    from unfinished_pos [OF k at that] have "0 < unfinished (tasks s)" .
    with inv show ?thesis by (cases "pc s") (auto simp: invar_def)
  qed
  show ?thesis
  proof (cases t)
    case Crashing
    with taskOk_in_set [OF inv mem] at show ?thesis by simp
  next
    case Running
    with ts k at live cr show ?thesis
      by (auto simp: taskStep_def split: outcome.splits option.splits prod.splits)
  next
    case (Logging e)
    with ts k at live cr show ?thesis by (auto simp: taskStep_def)
  next
    case Deferred
    with ts k at live cr wgpos show ?thesis by (auto simp: taskStep_def wgDone_def)
  next
    case Done
    with ts k at show ?thesis by (simp add: taskStep_def)
  next
    case Panicking
    with ts k at live cr wgpos show ?thesis by (auto simp: taskStep_def wgDone_def)
  qed
qed

subsection \<open>What every run of the reporter does\<close>

lemmas run_simps =
  getDrifts_def step_def mainStep_def taskStep_def wgDone_def init_def getDrift_def
  row_def padRight_def runeLen_def byte_def logLine_def header_def
  stubClient_def deployed_def apiDeployable_def exampleRuntime_def driftClient_def
  api_def worker_def reported_def eval_nat_numeral

text \<open>
  What the reporter does with a failure, apart from panics. In every state that a run
  of \<^verbatim>\<open>getDrifts\<close> reaches: a goroutine whose
  \<^verbatim>\<open>getDrift\<close> returned an error and that is past its logging step has logged the
  error with the name of its service; a step of a goroutine leaves the main goroutine
  and every other goroutine as they were, and it ends the process only when that
  goroutine has panicked, never when it has failed with an error; when
  \<^verbatim>\<open>getDrifts\<close> has returned, it has returned nil, every row that the \<^verbatim>\<open>getDrift\<close>
  of an entry prints is on the standard output, and every error is in the log. And
  when no \<^verbatim>\<open>getDrift\<close> panics, the run can always go on until \<^verbatim>\<open>getDrifts\<close>
  returns nil, whichever goroutines have failed.
\<close>

lemma getDrifts_logs_failures:
  assumes "getDrifts rt c pid envDeps sched = Some s"
  shows "(\<forall>ed t rows e. (ed, t) \<in> set (tasks s) \<and> (t = Deferred \<or> t = Done) \<and>
            getDrift rt c pid ed = Return (rows, Some e) \<longrightarrow> logLine ed e \<in> set (stderr s))
       \<and> (\<forall>k s'. step rt c pid envDeps s (Goroutine k) = Some s' \<longrightarrow>
            pc s' = pc s \<and> length (tasks s') = length (tasks s) \<and>
            (\<forall>j. j \<noteq> k \<longrightarrow> tasks s' ! j = tasks s ! j) \<and>
            (crashed s' \<longrightarrow> (\<exists>ed. tasks s ! k = (ed, Crashing) \<and> getDrift rt c pid ed = Panic)))
       \<and> (\<forall>err. pc s = Returned err \<longrightarrow> err = None \<and>
            (\<forall>ed \<in> set envDeps. \<forall>rows e. getDrift rt c pid ed = Return (rows, e) \<longrightarrow>
               set rows \<subseteq> set (stdout s) \<and>
               (\<forall>msg. e = Some msg \<longrightarrow> logLine ed msg \<in> set (stderr s))))
       \<and> ((\<forall>ed \<in> set envDeps. getDrift rt c pid ed \<noteq> Panic) \<longrightarrow>
            (\<exists>sched' s'. getDrifts rt c pid envDeps (sched @ sched') = Some s' \<and>
               pc s' = Returned None \<and> \<not> crashed s'))"
proof -
  note inv = invar_getDrifts [OF assms]
  have logged: "logLine ed e \<in> set (stderr s)"
    if "(ed, t) \<in> set (tasks s)" "t = Deferred \<or> t = Done"
      "getDrift rt c pid ed = Return (rows, Some e)" for ed t rows e
    using taskOk_in_set [OF inv that(1)] that(2,3) by auto
  have frame: "pc s' = pc s \<and> length (tasks s') = length (tasks s) \<and>
            (\<forall>j. j \<noteq> k \<longrightarrow> tasks s' ! j = tasks s ! j) \<and>
            (crashed s' \<longrightarrow> (\<exists>ed. tasks s ! k = (ed, Crashing) \<and> getDrift rt c pid ed = Panic))"
    if "step rt c pid envDeps s (Goroutine k) = Some s'" for k s'
    using goroutine_frame [OF that] goroutine_crash [OF inv that] by blast
  have final: "err = None \<and>
            (\<forall>ed \<in> set envDeps. \<forall>rows e. getDrift rt c pid ed = Return (rows, e) \<longrightarrow>
               set rows \<subseteq> set (stdout s) \<and>
               (\<forall>msg. e = Some msg \<longrightarrow> logLine ed msg \<in> set (stderr s)))"
    if ret: "pc s = Returned err" for err
  proof (intro conjI ballI allI impI)
    show "err = None" using returned_tasks(1) [OF inv ret] .
  next
    fix ed rows e
    assume ed: "ed \<in> set envDeps" and res: "getDrift rt c pid ed = Return (rows, e)"
    from ed returned_tasks(2) [OF inv ret] obtain t where mem: "(ed, t) \<in> set (tasks s)"
      by (metis (no_types, lifting) fst_conv imageE list.set_map prod.collapse)
    with returned_tasks(3) [OF inv ret] have fin: "finished t" by blast
    from taskOk_in_set [OF inv mem] res fin have t: "t = Done" by (cases t) auto
    from taskOk_in_set [OF inv mem] res t show "set rows \<subseteq> set (stdout s)"
      by (auto split: option.splits)
    fix msg
    assume "e = Some msg"
    with taskOk_in_set [OF inv mem] res t show "logLine ed msg \<in> set (stderr s)" by auto
  qed
  from logged frame final getDrifts_extends [OF _ assms] show ?thesis by blast
qed

lemma getDrifts_logs_failures_example:
  "getDrifts exampleRuntime driftClient 11 [api, worker] mainFirst = Some reported
 \<and> getDrift exampleRuntime driftClient 11 worker =
     Return ([], Some ''get prod environment: timeout'')
 \<and> getDrift exampleRuntime driftClient 11 api \<noteq> Panic
 \<and> logLine worker ''get prod environment: timeout'' \<in> set (stderr reported)
 \<and> ''api               | abc1234  | 3 days 2 hours'' @ [CHR 0x0A] \<in> set (stdout reported)
 \<and> pc reported = Returned None
 \<and> (\<exists>sched' s'. getDrifts exampleRuntime driftClient 11 [api, worker] (take 7 mainFirst @ sched')
        = Some s' \<and> pc s' = Returned None \<and> \<not> crashed s')"
proof -
  have run: "getDrifts exampleRuntime driftClient 11 [api, worker] mainFirst = Some reported"
    by (simp add: run_simps mainFirst_def)
  have failed: "getDrifts exampleRuntime driftClient 11 [api, worker] (take 7 mainFirst) =
      Some \<lparr>pc = Wait, wg = 2,
        tasks = [(api, Running), (worker, Logging ''get prod environment: timeout'')],
        stdout = [header], stderr = [], crashed = False\<rparr>"
    by (simp add: run_simps mainFirst_def)
  have safe: "\<forall>ed \<in> set [api, worker]. getDrift exampleRuntime driftClient 11 ed \<noteq> Panic"
    by (simp add: run_simps)
  have worker: "getDrift exampleRuntime driftClient 11 worker =
      Return ([], Some ''get prod environment: timeout'')"
    by (simp add: run_simps)
  from run worker safe getDrifts_logs_failures [OF run] getDrifts_logs_failures [OF failed]
  show ?thesis by (simp add: reported_def logLine_def worker_def)
qed

text \<open>
  Claim C7. The claim is that, whenever a drift-fetch task fails, the failure is logged
  with the name of its service, no sibling is stopped or kept from printing its row,
  and the run completes. The program does not keep to it when the \<^verbatim>\<open>getDrift\<close> of a
  sibling panics on a nil pointer: nothing recovers the panic, and it ends the process.
  With \<open>crashClient\<close> and the entries \<open>api\<close>, \<open>worker\<close> and \<open>web\<close>, the task of
  \<open>worker\<close> fails with an error and that of \<open>web\<close> has a row to print; after
  \<open>crashRun\<close> the process has ended with the error of \<open>worker\<close> not logged and the row
  of \<open>web\<close> not printed, \<^verbatim>\<open>getDrifts\<close> has not returned, and no goroutine moves again.
\<close>

theorem getDrifts_panic_ends_run:
  "getDrift exampleRuntime crashClient 11 worker =
     Return ([], Some ''get prod environment: timeout'')
 \<and> getDrift exampleRuntime crashClient 11 web =
     Return ([''web               | abc1234  | 3 days 2 hours'' @ [CHR 0x0A]], None)
 \<and> getDrifts exampleRuntime crashClient 11 [api, worker, web] crashRun = Some crashedState
 \<and> (\<forall>a sched'.
       getDrifts exampleRuntime crashClient 11 [api, worker, web] (crashRun @ a # sched') = None)"
proof -
  have run: "getDrifts exampleRuntime crashClient 11 [api, worker, web] crashRun =
      Some crashedState"
    by (simp add: run_simps crashRun_def crashedState_def crashClient_def web_def)
  have "getDrifts exampleRuntime crashClient 11 [api, worker, web] (crashRun @ a # sched') = None"
    for a sched'
    using run by (simp add: getDrifts_def exec_append step_def crashedState_def)
  moreover have "getDrift exampleRuntime crashClient 11 worker =
     Return ([], Some ''get prod environment: timeout'')"
    by (simp add: run_simps crashClient_def)
  moreover have "getDrift exampleRuntime crashClient 11 web =
     Return ([''web               | abc1234  | 3 days 2 hours'' @ [CHR 0x0A]], None)"
    by (simp add: run_simps crashClient_def web_def)
  ultimately show ?thesis using run by blast
qed

text \<open>
  Claim C8. In every state that a run of \<^verbatim>\<open>getDrifts\<close> reaches, the goroutines
  started are those of the first entries of the list, one for each entry and in the
  order of the list. When the main goroutine is at \<^verbatim>\<open>wg.Wait()\<close>, it has started
  the goroutine of every entry. When \<^verbatim>\<open>getDrifts\<close> has returned, the goroutine of every
  entry has been started and has finished.
\<close>

theorem getDrifts_starts_all_then_joins:
  assumes "getDrifts rt c pid envDeps sched = Some s"
  shows "map fst (tasks s) = take (started (length envDeps) (pc s)) envDeps
       \<and> (pc s = Wait \<longrightarrow> map fst (tasks s) = envDeps)
       \<and> (\<forall>err. pc s = Returned err \<longrightarrow>
            map fst (tasks s) = envDeps \<and> (\<forall>(ed, t) \<in> set (tasks s). finished t))"
proof -
  note inv = invar_getDrifts [OF assms]
  then have names: "map fst (tasks s) = take (started (length envDeps) (pc s)) envDeps"
    by (simp add: invar_def)
  moreover from names have "pc s = Wait \<longrightarrow> map fst (tasks s) = envDeps" by simp
  moreover have "\<forall>err. pc s = Returned err \<longrightarrow>
            map fst (tasks s) = envDeps \<and> (\<forall>(ed, t) \<in> set (tasks s). finished t)"
    using returned_tasks [OF inv] by blast
  ultimately show ?thesis by blast
qed

theorem getDrifts_starts_all_then_joins_witness:
  "getDrifts exampleRuntime driftClient 11 [api, worker] interleaved = Some reported
 \<and> pc reported = Returned None
 \<and> map fst (tasks reported) = [api, worker]
 \<and> map snd (tasks reported) = [Done, Done]
 \<and> getDrifts exampleRuntime driftClient 11 [api, worker] (take 8 interleaved) =
     Some \<lparr>pc = Wait, wg = 2,
       tasks = [(api, Deferred), (worker, Logging ''get prod environment: timeout'')],
       stdout = [header, ''api               | abc1234  | 3 days 2 hours'' @ [CHR 0x0A]],
       stderr = [], crashed = False\<rparr>"
proof -
  have run: "getDrifts exampleRuntime driftClient 11 [api, worker] interleaved = Some reported"
    by (simp add: run_simps interleaved_def)
  have waiting: "getDrifts exampleRuntime driftClient 11 [api, worker] (take 8 interleaved) =
     Some \<lparr>pc = Wait, wg = 2,
       tasks = [(api, Deferred), (worker, Logging ''get prod environment: timeout'')],
       stdout = [header, ''api               | abc1234  | 3 days 2 hours'' @ [CHR 0x0A]],
       stderr = [], crashed = False\<rparr>"
    by (simp add: run_simps interleaved_def)
  from run waiting
    getDrifts_starts_all_then_joins [OF run] getDrifts_starts_all_then_joins [OF waiting]
  show ?thesis by (simp add: reported_def)
qed

text \<open>
  Claim C10. Whenever \<^verbatim>\<open>getDrifts\<close> has returned, its error is nil, and \<^verbatim>\<open>main\<close> does
  not take its fatal branch. Every run has at most \<open>5 n + 4\<close> steps for \<open>n\<close> entries;
  a state in which no goroutine can move is one in which \<^verbatim>\<open>getDrifts\<close> has returned
  nil, or the process has ended on a panic; and the process ends on a panic only when
  the \<^verbatim>\<open>getDrift\<close> of some entry panics.
\<close>

theorem getDrifts_returns_nil:
  assumes "getDrifts rt c pid envDeps sched = Some s"
  shows "(\<forall>err. pc s = Returned err \<longrightarrow> err = None \<and> mainAfterDrifts err = Exit0)
       \<and> length sched \<le> 5 * length envDeps + 4
       \<and> ((\<forall>a. step rt c pid envDeps s a = None) \<longrightarrow> crashed s \<or> pc s = Returned None)
       \<and> (crashed s \<longrightarrow> (\<exists>ed \<in> set envDeps. getDrift rt c pid ed = Panic))"
proof -
  note inv = invar_getDrifts [OF assms]
  have "\<forall>err. pc s = Returned err \<longrightarrow> err = None \<and> mainAfterDrifts err = Exit0"
    using returned_tasks(1) [OF inv] by (auto simp: mainAfterDrifts_def)
  moreover have "length sched \<le> 5 * length envDeps + 4"
    using exec_bounded [OF assms [unfolded getDrifts_def]] by (simp add: stepsLeft_def init_def)
  moreover have "(\<forall>a. step rt c pid envDeps s a = None) \<longrightarrow> crashed s \<or> pc s = Returned None"
    using progress [OF inv] returned_tasks(1) [OF inv] by (metis option.distinct(1))
  moreover have "crashed s \<longrightarrow> (\<exists>ed \<in> set envDeps. getDrift rt c pid ed = Panic)"
    using getDrifts_live [OF _ assms] by blast
  ultimately show ?thesis by blast
qed

theorem getDrifts_returns_nil_witness:
  "getDrifts exampleRuntime driftClient 11 [api, worker] oneByOne = Some reported
 \<and> pc reported = Returned None
 \<and> mainAfterDrifts None = Exit0
 \<and> length oneByOne \<le> 5 * length [api, worker] + 4
 \<and> step exampleRuntime driftClient 11 [api, worker] reported MainGoroutine = None
 \<and> \<not> crashed reported"
proof -
  have run: "getDrifts exampleRuntime driftClient 11 [api, worker] oneByOne = Some reported"
    by (simp add: run_simps oneByOne_def)
  from run getDrifts_returns_nil [OF run] show ?thesis
    by (simp add: reported_def step_def mainStep_def)
qed

end
